theory Spec2Isabelle
  imports Complex_Main "HOL-Library.Multiset"
begin

section \<open>Data model (src/App.tsx, Types)\<close>

text \<open>
  Strings are lists of code units; the model covers the code units U+0000 to U+00FF, which
  is what an Isabelle \<open>char\<close> holds.

  Numbers. Base experience, height and weight, and the identifiers that the UI helpers sort
  and search, are modelled as \<open>int\<close>: on integers of magnitude up to \<open>2 ^ 53\<close> the
  arithmetic of the source (\<open>-\<close>, \<open>*\<close> by \<open>1\<close> or \<open>-1\<close>, comparison with \<open>0\<close>) is exact.
  The identifier of an entry of \<open>getPokemonPage\<close> is what \<open>Number\<close> makes of a piece of a
  URL, which can be any number of the language, \<open>NaN\<close> included: there it is a \<open>jsnum\<close>.
  The record of a list item therefore leaves the type of the identifier open.

  The built-ins \<open>Number\<close>, \<open>String\<close> (on a number) and \<open>localeCompare\<close> are parameters of
  the functions that call them; the model fixes nothing about what they return.

  The fields \<open>id\<close> and \<open>image\<close> of the source carry a prime here, since \<open>id\<close> and \<open>image\<close>
  are constants of HOL.
\<close>

text \<open>
  A number of the language by its value: \<open>NaN\<close>, a finite number (a rational; the two
  zeros are not told apart, and nothing in this program does), or an infinity.
\<close>

datatype jsnum = NaN | Fin rat | PInf | MInf

record NamedAPIResource =
  res_name :: string
  res_url :: string

text \<open>
  \<open>PokemonDetail\<close>, with the fields the list code reads: \<open>d_front_default\<close> is
  \<open>sprites.front_default\<close> (\<open>None\<close> for \<open>null\<close>), \<open>d_types\<close> is the list
  \<open>types.map((t) => t.type.name)\<close>.
\<close>

record PokemonDetail =
  d_id :: int
  d_name :: string
  d_front_default :: "string option"
  d_types :: "string list"
  d_height :: int
  d_weight :: int
  d_base_experience :: int

record 'n PokemonListItem =
  id' :: 'n
  name :: string
  url :: string
  image' :: string
  types :: "string list"
  base_experience :: int
  height :: int
  weight :: int

section \<open>Built-ins of the language used by the helpers\<close>

subsection \<open>\<open>String.prototype.trim\<close>, \<open>toLowerCase\<close>, \<open>includes\<close>\<close>

definition is_white_space :: "char \<Rightarrow> bool" where
  \<comment> \<open>WhiteSpace and LineTerminator below U+0100: TAB, LF, VT, FF, CR, SP, NBSP.\<close>
  "is_white_space c = ((of_char c :: nat) \<in> {9, 10, 11, 12, 13, 32, 160})"

definition trim :: "string \<Rightarrow> string" where
  "trim s = rev (dropWhile is_white_space (rev (dropWhile is_white_space s)))"

definition is_upper :: "char \<Rightarrow> bool" where
  \<comment> \<open>\<open>A\<close> to \<open>Z\<close>, and U+00C0 to U+00DE without the multiplication sign U+00D7.\<close>
  "is_upper c =
     (let n = (of_char c :: nat)
      in (65 \<le> n \<and> n \<le> 90) \<or> (192 \<le> n \<and> n \<le> 222 \<and> n \<noteq> 215))"

definition lower_char :: "char \<Rightarrow> char" where
  "lower_char c = (if is_upper c then char_of ((of_char c :: nat) + 32) else c)"

definition toLowerCase :: "string \<Rightarrow> string" where
  "toLowerCase s = map lower_char s"

fun starts_with :: "string \<Rightarrow> string \<Rightarrow> bool" where
  "starts_with s [] = True"
| "starts_with [] (c # cs) = False"
| "starts_with (d # ds) (c # cs) = (d = c \<and> starts_with ds cs)"

fun includes_str :: "string \<Rightarrow> string \<Rightarrow> bool" where
  \<comment> \<open>\<open>s.includes(t)\<close>: \<open>t\<close> occurs in \<open>s\<close> at some position.\<close>
  "includes_str [] t = (t = [])"
| "includes_str (d # ds) t = (starts_with (d # ds) t \<or> includes_str ds t)"

subsection \<open>Decimal numerals\<close>

definition digit_char :: "nat \<Rightarrow> char" where
  "digit_char d = char_of (48 + d)"

fun digits_of :: "nat \<Rightarrow> string" where
  "digits_of n = (if n < 10 then [digit_char n] else digits_of (n div 10) @ [digit_char (n mod 10)])"

declare digits_of.simps [simp del]

definition decimal_numeral :: "int \<Rightarrow> string" where
  \<comment> \<open>The decimal numeral of an integer. \<open>String(n)\<close> of the source is this numeral for the
      integers of magnitude up to \<open>2 ^ 53\<close>; larger numbers print rounded or with an
      exponent, which is why \<open>String\<close> itself is a parameter below.\<close>
  "decimal_numeral n = (if n < 0 then CHR ''-'' # digits_of (nat (- n)) else digits_of (nat n))"

subsection \<open>Subtraction and comparison of numbers\<close>

fun js_minus :: "jsnum \<Rightarrow> jsnum \<Rightarrow> jsnum" where
  \<comment> \<open>\<open>a - b\<close>. On two finite numbers the source rounds the difference, which keeps its
      sign and makes it zero only when the two are equal; the model keeps the difference.\<close>
  "js_minus NaN b = NaN"
| "js_minus a NaN = NaN"
| "js_minus (Fin a) (Fin b) = Fin (a - b)"
| "js_minus (Fin a) PInf = MInf"
| "js_minus (Fin a) MInf = PInf"
| "js_minus PInf PInf = NaN"
| "js_minus PInf b = PInf"
| "js_minus MInf MInf = NaN"
| "js_minus MInf b = MInf"

fun sort_reads :: "jsnum \<Rightarrow> int" where
  \<comment> \<open>How \<open>sort\<close> reads what a comparator returned: its sign, with \<open>NaN\<close> read as zero.\<close>
  "sort_reads NaN = 0"
| "sort_reads (Fin r) = (if r < 0 then - 1 else if r = 0 then 0 else 1)"
| "sort_reads PInf = 1"
| "sort_reads MInf = - 1"

fun js_le :: "jsnum \<Rightarrow> jsnum \<Rightarrow> bool" where
  \<comment> \<open>\<open>a <= b\<close>: false as soon as one side is \<open>NaN\<close>.\<close>
  "js_le NaN b = False"
| "js_le a NaN = False"
| "js_le MInf b = True"
| "js_le a PInf = True"
| "js_le (Fin a) (Fin b) = (a \<le> b)"
| "js_le a b = False"

definition ascending :: "jsnum list \<Rightarrow> bool" where
  \<comment> \<open>Every element is \<open><=\<close> every later one.\<close>
  "ascending xs = sorted_wrt js_le xs"

section \<open>UI helpers: filtering\<close>

text \<open>\<open>str\<close> stands for \<open>String\<close> applied to an identifier.\<close>

definition filterItems ::
  "('n \<Rightarrow> string) \<Rightarrow> 'n PokemonListItem list \<Rightarrow> string \<Rightarrow> 'n PokemonListItem list" where
  "filterItems str items q =
     (let s = toLowerCase (trim q)
      in if s = [] then items
         else filter (\<lambda>p. includes_str (name p) s \<or> str (id' p) = s) items)"

text \<open>
  The filter as the specification words it: the name is matched without regard to case, and
  the identifier's numeral is compared with the trimmed query.
\<close>

definition filterItems_spec ::
  "('n \<Rightarrow> string) \<Rightarrow> 'n PokemonListItem list \<Rightarrow> string \<Rightarrow> 'n PokemonListItem list" where
  "filterItems_spec str items q =
     (if trim q = [] then items
      else filter (\<lambda>p. includes_str (toLowerCase (name p)) (toLowerCase (trim q))
                        \<or> str (id' p) = trim q) items)"

section \<open>UI helpers: sorting\<close>

subsection \<open>\<open>Array.prototype.sort\<close> with a comparator\<close>

text \<open>
  The language requires \<open>sort\<close> to be stable: an element goes after another one exactly
  when the comparator says so with a positive number, and elements the comparator does not
  separate keep their order. For a consistent comparator that fixes the result, which is
  computed here by insertion from the right end of the list.
\<close>

fun insert_by :: "('a \<Rightarrow> 'a \<Rightarrow> int) \<Rightarrow> 'a \<Rightarrow> 'a list \<Rightarrow> 'a list" where
  "insert_by cmp x [] = [x]"
| "insert_by cmp x (y # ys) = (if cmp x y \<le> 0 then x # y # ys else y # insert_by cmp x ys)"

definition Array_sort :: "('a \<Rightarrow> 'a \<Rightarrow> int) \<Rightarrow> 'a list \<Rightarrow> 'a list" where
  "Array_sort cmp xs = foldr (insert_by cmp) xs []"

subsection \<open>\<open>sortItems\<close>\<close>

datatype SortKey = Name | Id | Base_experience

datatype SortDir = Asc | Desc



text \<open>
  \<open>localeCompare\<close> depends on the collation of the host, so it is a parameter \<open>lc\<close> of
  the model: a negative number, zero or a positive number.
\<close>

fun compare_items ::
  "(string \<Rightarrow> string \<Rightarrow> int) \<Rightarrow> SortKey \<Rightarrow> int \<Rightarrow> int PokemonListItem \<Rightarrow> int PokemonListItem \<Rightarrow> int" where
  "compare_items lc Name mul a b = lc (name a) (name b) * mul"
| "compare_items lc Id mul a b = (id' a - id' b) * mul"
| "compare_items lc Base_experience mul a b = (base_experience a - base_experience b) * mul"

definition sortItems ::
  "(string \<Rightarrow> string \<Rightarrow> int) \<Rightarrow> int PokemonListItem list \<Rightarrow> SortKey \<Rightarrow> SortDir
     \<Rightarrow> int PokemonListItem list" where
  "sortItems lc items key dir =
     (let mul = (if dir = Asc then 1 else - 1)
      in Array_sort (compare_items lc key mul) items)"

subsection \<open>\<open>sortItems\<close> on a store of arrays\<close>

text \<open>
  Arrays are objects: a variable holds a reference, and \<open>sort\<close> works in place. The store
  maps references to array contents; \<open>next_ref\<close> is the next reference to hand out.
\<close>

record 'a heap =
  arrays :: "nat \<Rightarrow> 'a list option"
  next_ref :: nat

definition heap_ok :: "'a heap \<Rightarrow> bool" where
  "heap_ok h = (\<forall>r. next_ref h \<le> r \<longrightarrow> arrays h r = None)"

definition spread :: "'a heap \<Rightarrow> nat \<Rightarrow> (nat \<times> 'a heap) option" where
  \<comment> \<open>\<open>[...items]\<close>: a new array with the elements of \<open>items\<close>.\<close>
  "spread h r =
     (case arrays h r of
        None \<Rightarrow> None
      | Some xs \<Rightarrow>
          Some (next_ref h,
                h\<lparr>arrays := (arrays h)(next_ref h \<mapsto> xs), next_ref := Suc (next_ref h)\<rparr>))"

definition sort_in_place :: "('a \<Rightarrow> 'a \<Rightarrow> int) \<Rightarrow> 'a heap \<Rightarrow> nat \<Rightarrow> (nat \<times> 'a heap) option" where
  \<comment> \<open>\<open>arr.sort(cmp)\<close>: reorders \<open>arr\<close> itself and returns the same reference.\<close>
  "sort_in_place cmp h r =
     (case arrays h r of
        None \<Rightarrow> None
      | Some xs \<Rightarrow> Some (r, h\<lparr>arrays := (arrays h)(r \<mapsto> Array_sort cmp xs)\<rparr>))"

definition sortItems_heap ::
  "(string \<Rightarrow> string \<Rightarrow> int) \<Rightarrow> int PokemonListItem heap \<Rightarrow> nat \<Rightarrow> SortKey \<Rightarrow> SortDir
     \<Rightarrow> (nat \<times> int PokemonListItem heap) option" where
  "sortItems_heap lc h items key dir =
     (let mul = (if dir = Asc then 1 else - 1)
      in case spread h items of
           None \<Rightarrow> None
         | Some (copy, h1) \<Rightarrow> sort_in_place (compare_items lc key mul) h1 copy)"

text \<open>A collation for worked examples: code units compared from the left.\<close>

fun code_unit_compare :: "string \<Rightarrow> string \<Rightarrow> int" where
  "code_unit_compare [] [] = 0"
| "code_unit_compare [] (d # ds) = - 1"
| "code_unit_compare (c # cs) [] = 1"
| "code_unit_compare (c # cs) (d # ds) =
     (if (of_char c :: nat) < of_char d then - 1
      else if (of_char d :: nat) < of_char c then 1
      else code_unit_compare cs ds)"

section \<open>Gallery: the type filter of \<open>GalleryView\<close>\<close>

definition GalleryView_filtered ::
  "'n PokemonListItem list \<Rightarrow> string list \<Rightarrow> 'n PokemonListItem list" where
  "GalleryView_filtered items selected =
     (if length selected = 0 then items
      else filter (\<lambda>p. list_all (\<lambda>t. t \<in> set (types p)) selected) items)"

section \<open>Detail view: previous and next identifier\<close>


fun indexOf :: "int list \<Rightarrow> int \<Rightarrow> int" where
  \<comment> \<open>\<open>Array.prototype.indexOf\<close>: the first position of the value, or \<open>-1\<close>.\<close>
  "indexOf [] v = - 1"
| "indexOf (x # xs) v =
     (if x = v then 0 else (let r = indexOf xs v in if r < 0 then - 1 else r + 1))"


definition DetailView_order :: "'n PokemonListItem list \<Rightarrow> 'n list" where
  "DetailView_order items = map id' items"



section \<open>\<open>getPokemonPage\<close>\<close>

subsection \<open>Building the light list\<close>

fun split_at :: "char \<Rightarrow> string \<Rightarrow> string list" where
  \<comment> \<open>\<open>s.split(sep)\<close> for a separator of one code unit; the result is never empty.\<close>
  "split_at sep [] = [[]]"
| "split_at sep (c # cs) =
     (if c = sep then [] # split_at sep cs
      else (case split_at sep cs of
              [] \<Rightarrow> [[c]]
            | w # ws \<Rightarrow> (c # w) # ws))"

definition pop :: "'a list \<Rightarrow> 'a option" where
  \<comment> \<open>The value of \<open>arr.pop()\<close>: the last element, \<open>undefined\<close> (\<open>None\<close>) on an empty array.\<close>
  "pop xs = (if xs = [] then None else Some (last xs))"

definition trailing_segment :: "string \<Rightarrow> string option" where
  \<comment> \<open>\<open>url.split("/").filter(Boolean).pop()\<close>\<close>
  "trailing_segment u = pop (filter (\<lambda>seg. seg \<noteq> []) (split_at CHR ''/'' u))"

text \<open>
  \<open>num\<close> stands for \<open>Number\<close> applied to the popped value (a string, or \<open>undefined\<close>), and
  \<open>str\<close> for \<open>String\<close> applied to the identifier inside the template of the image URL.
\<close>

definition sprite_url :: "('n \<Rightarrow> string) \<Rightarrow> 'n \<Rightarrow> string" where
  "sprite_url str n =
     ''https://raw.githubusercontent.com/PokeAPI/sprites/master/sprites/pokemon/''
       @ str n @ ''.png''"

definition light_item ::
  "(string option \<Rightarrow> 'n) \<Rightarrow> ('n \<Rightarrow> string) \<Rightarrow> NamedAPIResource \<Rightarrow> 'n PokemonListItem" where
  \<comment> \<open>The callback of \<open>list.map\<close>.\<close>
  "light_item num str it =
     (let n = num (trailing_segment (res_url it))
      in \<lparr>id' = n, name = res_name it, url = res_url it, image' = sprite_url str n,
          types = [], base_experience = - 1, height = - 1, weight = - 1\<rparr>)"

definition build_light ::
  "(string option \<Rightarrow> jsnum) \<Rightarrow> (jsnum \<Rightarrow> string) \<Rightarrow> NamedAPIResource list
     \<Rightarrow> jsnum PokemonListItem list" where
  "build_light num str list =
     Array_sort (\<lambda>a b. sort_reads (js_minus (id' a) (id' b))) (map (light_item num str) list)"

subsection \<open>Enrichment: four workers on one cursor\<close>

datatype error = TransportError

type_synonym response = "error + PokemonDetail"

definition enrich_item :: "'n PokemonListItem \<Rightarrow> PokemonDetail \<Rightarrow> 'n PokemonListItem" where
  \<comment> \<open>The object literal assigned to \<open>light[idx]\<close>; \<open>||\<close> falls through on \<open>null\<close> and on \<open>""\<close>.\<close>
  "enrich_item p d =
     p\<lparr>image' := (case d_front_default d of
                     None \<Rightarrow> image' p
                   | Some u \<Rightarrow> if u = [] then image' p else u),
       types := d_types d,
       base_experience := d_base_experience d,
       height := d_height d,
       weight := d_weight d\<rparr>"

definition on_response ::
  "'n PokemonListItem list \<Rightarrow> nat \<Rightarrow> response \<Rightarrow> 'n PokemonListItem list" where
  \<comment> \<open>The \<open>try\<close> block of \<open>next\<close> after the \<open>await\<close>: a failed request leaves the list alone.\<close>
  "on_response l idx r =
     (case r of
        Inl e \<Rightarrow> l
      | Inr d \<Rightarrow> l[idx := enrich_item (l ! idx) d])"

text \<open>
  The event loop runs one piece of code at a time, and a worker gives up control only at
  the \<open>await\<close> of its detail request. A worker is therefore either waiting for the response
  to the request of one index, or done. The state holds the array \<open>light\<close>, the shared
  cursor \<open>i\<close>, the workers in the order \<open>Array.from\<close> started them, and the requests issued
  so far (index and identifier asked for).
\<close>

datatype worker = Waiting nat | Done

record 'n state =
  light :: "'n PokemonListItem list"
  cursor :: nat
  workers :: "worker list"
  requests :: "(nat \<times> 'n) list"

definition claim :: "'n state \<Rightarrow> worker \<times> 'n state" where
  \<comment> \<open>A call of \<open>next\<close> up to its \<open>await\<close>: return at the end of the list, or take the
      next index and issue its request.\<close>
  "claim s =
     (if cursor s \<ge> length (light s) then (Done, s)
      else (Waiting (cursor s),
            s\<lparr>cursor := cursor s + 1,
              requests := requests s @ [(cursor s, id' (light s ! cursor s))]\<rparr>))"

definition spawn :: "'n state \<Rightarrow> 'n state" where
  \<comment> \<open>One call \<open>next()\<close> made by \<open>Array.from\<close>.\<close>
  "spawn s = (let (w, s') = claim s in s'\<lparr>workers := workers s' @ [w]\<rparr>)"

definition concurrency :: nat where
  "concurrency = 4"

definition init_state :: "'n PokemonListItem list \<Rightarrow> 'n state" where
  "init_state l =
     (spawn ^^ (min concurrency (length l)))
       \<lparr>light = l, cursor = 0, workers = [], requests = []\<rparr>"

text \<open>
  \<open>deliver resp s w\<close>: the response to the outstanding request of worker \<open>w\<close> arrives. The
  worker handles it and calls \<open>next\<close> again, all in one turn of the event loop. \<open>resp idx\<close>
  is what the transport answers to the request made for index \<open>idx\<close>. There is nothing to
  deliver (\<open>None\<close>) to a worker that is done or does not exist.
\<close>

definition deliver :: "(nat \<Rightarrow> response) \<Rightarrow> 'n state \<Rightarrow> nat \<Rightarrow> 'n state option" where
  "deliver resp s w =
     (if w < length (workers s) then
        (case workers s ! w of
           Done \<Rightarrow> None
         | Waiting idx \<Rightarrow>
             (let (wk, s') = claim (s\<lparr>light := on_response (light s) idx (resp idx)\<rparr>)
              in Some (s'\<lparr>workers := (workers s')[w := wk]\<rparr>)))
      else None)"

fun run :: "(nat \<Rightarrow> response) \<Rightarrow> 'n state \<Rightarrow> nat list \<Rightarrow> 'n state option" where
  \<comment> \<open>The responses arrive in the order \<open>ws\<close> (one worker number per arrival).\<close>
  "run resp s [] = Some s"
| "run resp s (w # ws) =
     (case deliver resp s w of
        None \<Rightarrow> None
      | Some s' \<Rightarrow> run resp s' ws)"

definition finished :: "'n state \<Rightarrow> bool" where
  \<comment> \<open>\<open>Promise.all\<close> is settled: every worker has returned.\<close>
  "finished s = list_all (\<lambda>w. w = Done) (workers s)"

definition in_flight :: "'n state \<Rightarrow> nat" where
  "in_flight s = length (filter (\<lambda>w. w \<noteq> Done) (workers s))"

definition enriched ::
  "(nat \<Rightarrow> response) \<Rightarrow> 'n PokemonListItem list \<Rightarrow> 'n PokemonListItem list" where
  \<comment> \<open>Every entry with its own response applied, and nothing else.\<close>
  "enriched resp l =
     map (\<lambda>idx. case resp idx of Inl e \<Rightarrow> l ! idx | Inr d \<Rightarrow> enrich_item (l ! idx) d)
       [0..<length l]"

subsection \<open>The whole function\<close>

definition mock :: "jsnum PokemonListItem list" where
  "mock =
     [\<lparr>id' = Fin 1, name = ''bulbasaur'', url = [], image' =
         ''https://raw.githubusercontent.com/PokeAPI/sprites/master/sprites/pokemon/1.png'',
       types = [''grass'', ''poison''], base_experience = 64, height = 7, weight = 69\<rparr>,
      \<lparr>id' = Fin 4, name = ''charmander'', url = [], image' =
         ''https://raw.githubusercontent.com/PokeAPI/sprites/master/sprites/pokemon/4.png'',
       types = [''fire''], base_experience = 62, height = 6, weight = 85\<rparr>,
      \<lparr>id' = Fin 7, name = ''squirtle'', url = [], image' =
         ''https://raw.githubusercontent.com/PokeAPI/sprites/master/sprites/pokemon/7.png'',
       types = [''water''], base_experience = 63, height = 5, weight = 90\<rparr>]"

text \<open>
  What a call comes to: it returns a list; or it never returns, because a response is
  still outstanding when the arrivals \<open>ws\<close> end (or \<open>ws\<close> names a worker that has no
  request outstanding, which no execution does).
\<close>

datatype outcome = Returns "jsnum PokemonListItem list" | Never_returns

definition getPokemonPage ::
  "(string option \<Rightarrow> jsnum) \<Rightarrow> (jsnum \<Rightarrow> string) \<Rightarrow> error + NamedAPIResource list
     \<Rightarrow> (nat \<Rightarrow> response) \<Rightarrow> nat list \<Rightarrow> outcome" where
  "getPokemonPage num str page resp ws =
     (case page of
        Inl e \<Rightarrow> Returns mock
      | Inr list \<Rightarrow>
          (case run resp (init_state (build_light num str list)) ws of
             None \<Rightarrow> Never_returns
           | Some s \<Rightarrow> if finished s then Returns (light s) else Never_returns))"

subsection \<open>The sample of \<open>runRuntimeTests\<close>\<close>

definition sample :: "int PokemonListItem list" where
  "sample =
     [\<lparr>id' = 1, name = ''bulbasaur'', url = [], image' = [],
       types = [''grass''], base_experience = 64, height = 7, weight = 69\<rparr>,
      \<lparr>id' = 2, name = ''ivysaur'', url = [], image' = [],
       types = [''grass''], base_experience = 142, height = 10, weight = 130\<rparr>,
      \<lparr>id' = 4, name = ''charmander'', url = [], image' = [],
       types = [''fire''], base_experience = 62, height = 6, weight = 85\<rparr>]"

subsection \<open>The invariant of the enrichment\<close>

definition answered ::
  "(nat \<Rightarrow> response) \<Rightarrow> 'n PokemonListItem list \<Rightarrow> nat \<Rightarrow> 'n PokemonListItem" where
  \<comment> \<open>Entry \<open>j\<close> of the list \<open>l\<close> once its own response has been handled.\<close>
  "answered resp l j = (case resp j of Inl e \<Rightarrow> l ! j | Inr d \<Rightarrow> enrich_item (l ! j) d)"

text \<open>
  What holds of every state the workers reach from \<open>init_state l\<close>: the cursor stays
  within the list; the requests issued are those of the indices below the cursor, in
  order; a waiting worker holds an index below the cursor, and no two hold the same one;
  an entry is the answered one when its index is below the cursor and no worker waits for
  it, and the original one otherwise; a worker is done only when the cursor is at the end;
  the number of workers is fixed.
\<close>

definition inv :: "(nat \<Rightarrow> response) \<Rightarrow> 'n PokemonListItem list \<Rightarrow> 'n state \<Rightarrow> bool" where
  "inv resp l s \<longleftrightarrow>
     length (light s) = length l
     \<and> cursor s \<le> length l
     \<and> requests s = map (\<lambda>i. (i, id' (l ! i))) [0..<cursor s]
     \<and> (\<forall>i<length (workers s). \<forall>idx. workers s ! i = Waiting idx \<longrightarrow> idx < cursor s)
     \<and> (\<forall>i<length (workers s). \<forall>j<length (workers s). \<forall>idx.
           workers s ! i = Waiting idx \<and> workers s ! j = Waiting idx \<longrightarrow> i = j)
     \<and> (\<forall>j<length l. light s ! j =
           (if j < cursor s \<and> (\<forall>i<length (workers s). workers s ! i \<noteq> Waiting j)
            then answered resp l j else l ! j))
     \<and> ((\<exists>i<length (workers s). workers s ! i = Done) \<longrightarrow> cursor s = length l)
     \<and> length (workers s) = min concurrency (length l)"

text \<open>
  The change of a numeric field that the specification allows: none, or from the sentinel
  \<open>-1\<close> to a non-negative value.
\<close>

definition sentinel_step :: "int \<Rightarrow> int \<Rightarrow> bool" where
  "sentinel_step old new = (new = old \<or> (old = - 1 \<and> 0 \<le> new))"

subsection \<open>Worked examples\<close>

text \<open>
  Two functions to stand for \<open>Number\<close> and \<open>String\<close> in the worked examples. They agree
  with the built-ins where the examples use them: \<open>Number\<close> gives \<open>NaN\<close> on \<open>undefined\<close> and
  on text without a digit, and the denoted integer on a string of decimal digits up to
  \<open>2 ^ 53\<close>; \<open>String\<close> gives the decimal numeral of an integer up to that magnitude, and
  \<open>NaN\<close> and \<open>Infinity\<close> by their names. On other arguments the built-ins do something
  else (hexadecimal and exponent notation, fractions, rounding), which the examples do not
  touch and the theorems, being about every \<open>num\<close> and \<open>str\<close>, do not depend on.
\<close>

definition is_digit :: "char \<Rightarrow> bool" where
  "is_digit c = (48 \<le> (of_char c :: nat) \<and> (of_char c :: nat) \<le> 57)"

definition decimal_value :: "string \<Rightarrow> int" where
  "decimal_value s = foldl (\<lambda>a c. 10 * a + ((of_char c :: int) - 48)) 0 s"

definition Number_example :: "string option \<Rightarrow> jsnum" where
  "Number_example x =
     (case x of
        None \<Rightarrow> NaN
      | Some s \<Rightarrow>
          if s \<noteq> [] \<and> list_all is_digit s \<and> decimal_value s \<le> 2 ^ 53
          then Fin (of_int (decimal_value s)) else NaN)"

fun String_example :: "jsnum \<Rightarrow> string" where
  "String_example NaN = ''NaN''"
| "String_example PInf = ''Infinity''"
| "String_example MInf = ''-Infinity''"
| "String_example (Fin r) = decimal_numeral \<lfloor>r\<rfloor>"

definition sample_page :: "NamedAPIResource list" where
  "sample_page =
     [\<lparr>res_name = ''charmander'', res_url = ''https://pokeapi.co/api/v2/pokemon/4/''\<rparr>,
      \<lparr>res_name = ''bulbasaur'', res_url = ''https://pokeapi.co/api/v2/pokemon/1/''\<rparr>]"

definition sample_light :: "jsnum PokemonListItem list" where
  "sample_light =
     [\<lparr>id' = Fin 1, name = ''bulbasaur'', url = ''https://pokeapi.co/api/v2/pokemon/1/'',
       image' =
         ''https://raw.githubusercontent.com/PokeAPI/sprites/master/sprites/pokemon/1.png'',
       types = [], base_experience = - 1, height = - 1, weight = - 1\<rparr>,
      \<lparr>id' = Fin 4, name = ''charmander'', url = ''https://pokeapi.co/api/v2/pokemon/4/'',
       image' =
         ''https://raw.githubusercontent.com/PokeAPI/sprites/master/sprites/pokemon/4.png'',
       types = [], base_experience = - 1, height = - 1, weight = - 1\<rparr>]"

definition stray_page :: "NamedAPIResource list" where
  \<comment> \<open>A page whose second reference has nothing to parse an identifier from.\<close>
  "stray_page =
     [\<lparr>res_name = ''ivysaur'', res_url = ''https://pokeapi.co/api/v2/pokemon/2/''\<rparr>,
      \<lparr>res_name = ''missingno'', res_url = []\<rparr>,
      \<lparr>res_name = ''bulbasaur'', res_url = ''https://pokeapi.co/api/v2/pokemon/1/''\<rparr>]"

definition sample_detail :: PokemonDetail where
  "sample_detail =
     \<lparr>d_id = 1, d_name = ''bulbasaur'', d_front_default = Some ''front.png'',
      d_types = [''grass'', ''poison''], d_height = 7, d_weight = 69, d_base_experience = 64\<rparr>"

definition sample_resp :: "nat \<Rightarrow> response" where
  \<comment> \<open>The request for index 1 fails, every other one succeeds.\<close>
  "sample_resp i = (if i = 1 then Inl TransportError else Inr sample_detail)"

definition sample_final :: "int state" where
  \<comment> \<open>Six entries, responses arriving at workers 0, 1, 0, 3, 2, 1.\<close>
  "sample_final = the (run sample_resp (init_state (sample @ sample)) [0, 1, 0, 3, 2, 1])"

definition sample_step :: "jsnum state" where
  \<comment> \<open>The first response arrives at worker 0.\<close>
  "sample_step = the (deliver sample_resp (init_state sample_light) 0)"

section \<open>Properties of the sort\<close>

lemma Array_sort_Nil: "Array_sort cmp [] = []"
  by (simp add: Array_sort_def)

lemma Array_sort_Cons: "Array_sort cmp (x # xs) = insert_by cmp x (Array_sort cmp xs)"
  by (simp add: Array_sort_def)

lemma mset_insert_by: "mset (insert_by cmp x ys) = add_mset x (mset ys)"
  by (induction ys) auto

lemma mset_Array_sort: "mset (Array_sort cmp xs) = mset xs"
  by (induction xs) (auto simp: Array_sort_Nil Array_sort_Cons mset_insert_by)








text \<open>
  Claim C10. The output of \<open>sortItems\<close> is a permutation of its input: the same items with
  the same multiplicities, hence the same length; nothing is added, dropped or changed.
\<close>

theorem sortItems_permutation:
  "mset (sortItems lc items key dir) = mset items
   \<and> length (sortItems lc items key dir) = length items"
proof -
  have m: "mset (sortItems lc items key dir) = mset items"
    by (simp add: sortItems_def Let_def mset_Array_sort)
  have "length (sortItems lc items key dir) = length items"
    using m by (rule mset_eq_length)
  with m show ?thesis by simp
qed

text \<open>
  Claim C9. \<open>sortItems\<close> returns a new array and leaves its argument alone: in a store
  where the argument \<open>items\<close> refers to the array \<open>xs\<close>, the call returns a reference
  different from \<open>items\<close> that holds the sorted items, and afterwards \<open>items\<close> still refers
  to \<open>xs\<close>, as does every other reference to what it held before.
\<close>

theorem sortItems_leaves_input:
  assumes "heap_ok h" and "arrays h items = Some xs"
  shows "\<exists>out h'. sortItems_heap lc h items key dir = Some (out, h')
           \<and> out \<noteq> items
           \<and> arrays h' items = Some xs
           \<and> arrays h' out = Some (sortItems lc xs key dir)
           \<and> (\<forall>r. r \<noteq> out \<longrightarrow> arrays h' r = arrays h r)"
proof -
  have "items < next_ref h"
  proof (rule ccontr)
    assume "\<not> items < next_ref h"
    then have "arrays h items = None" using assms(1) by (simp add: heap_ok_def)
    with assms(2) show False by simp
  qed
  then show ?thesis
    using assms(2)
    by (simp add: sortItems_heap_def spread_def sort_in_place_def sortItems_def Let_def)
qed

theorem sortItems_leaves_input_witness:
  "heap_ok \<lparr>arrays = (\<lambda>r. None)(0 \<mapsto> sample), next_ref = 1\<rparr>
   \<and> arrays \<lparr>arrays = (\<lambda>r. None)(0 \<mapsto> sample), next_ref = 1\<rparr> 0 = Some sample
   \<and> (\<exists>out h'. sortItems_heap code_unit_compare
                  \<lparr>arrays = (\<lambda>r. None)(0 \<mapsto> sample), next_ref = 1\<rparr> 0 Id Desc = Some (out, h')
         \<and> out \<noteq> 0 \<and> arrays h' 0 = Some sample)"
proof -
  have ok: "heap_ok \<lparr>arrays = (\<lambda>r. None)(0 \<mapsto> sample), next_ref = 1\<rparr>"
    by (simp add: heap_ok_def)
  have at: "arrays \<lparr>arrays = (\<lambda>r. None)(0 \<mapsto> sample), next_ref = 1\<rparr> 0 = Some sample"
    by simp
  from sortItems_leaves_input [OF ok at, of code_unit_compare Id Desc] ok at
  show ?thesis by blast
qed

section \<open>Properties of the gallery filter\<close>

text \<open>
  Claim C7. With no label selected the gallery filter returns all items; otherwise it keeps
  exactly the items whose labels include every selected label.
\<close>

theorem GalleryView_filtered_superset:
  "GalleryView_filtered items selected
     = (if selected = [] then items
        else filter (\<lambda>p. set selected \<subseteq> set (types p)) items)"
  by (auto simp: GalleryView_filtered_def list_all_iff subset_iff intro: filter_cong)

theorem GalleryView_filtered_superset_witness:
  "GalleryView_filtered mock [] = mock
   \<and> GalleryView_filtered mock [''grass'', ''poison''] = [mock ! 0]
   \<and> GalleryView_filtered mock [''grass'', ''fire''] = []"
  using GalleryView_filtered_superset [of mock "[]"]
    GalleryView_filtered_superset [of mock "[''grass'', ''poison'']"]
    GalleryView_filtered_superset [of mock "[''grass'', ''fire'']"]
  by (simp add: mock_def)

section \<open>Properties of the detail navigation\<close>





section \<open>Properties of \<open>getPokemonPage\<close>\<close>

text \<open>
  Claim C4. When the page request fails, \<open>getPokemonPage\<close> returns the built-in list of
  three items: bulbasaur with identifier 1, charmander with 4 and squirtle with 7, whatever
  the detail requests would answer.
\<close>

theorem page_failure_returns_mock:
  "getPokemonPage num str (Inl e) resp ws = Returns mock
   \<and> map (\<lambda>p. (id' p, name p)) mock
         = [(Fin 1, ''bulbasaur''), (Fin 4, ''charmander''), (Fin 7, ''squirtle'')]
   \<and> length mock = 3"
  by (simp add: getPokemonPage_def mock_def)

section \<open>Properties of the text filter\<close>

lemma starts_with_iff: "starts_with s t \<longleftrightarrow> (\<exists>suf. s = t @ suf)"
  by (induction s t rule: starts_with.induct) auto

lemma includes_str_iff: "includes_str s t \<longleftrightarrow> (\<exists>pre suf. s = pre @ t @ suf)"
proof (induction s)
  case Nil
  then show ?case by auto
next
  case (Cons d ds)
  show ?case
  proof
    assume "includes_str (d # ds) t"
    then consider "starts_with (d # ds) t" | "includes_str ds t" by auto
    then show "\<exists>pre suf. d # ds = pre @ t @ suf"
    proof cases
      case 1
      then obtain suf where "d # ds = t @ suf" by (auto simp: starts_with_iff)
      then have "d # ds = [] @ t @ suf" by simp
      then show ?thesis by blast
    next
      case 2
      then obtain pre suf where "ds = pre @ t @ suf" using Cons.IH by blast
      then have "d # ds = (d # pre) @ t @ suf" by simp
      then show ?thesis by blast
    qed
  next
    assume "\<exists>pre suf. d # ds = pre @ t @ suf"
    then obtain pre suf where e: "d # ds = pre @ t @ suf" by blast
    show "includes_str (d # ds) t"
    proof (cases pre)
      case Nil
      with e have "starts_with (d # ds) t" by (auto simp: starts_with_iff)
      then show ?thesis by simp
    next
      case (Cons p ps)
      with e have "ds = ps @ t @ suf" by simp
      then have "includes_str ds t" using Cons.IH by blast
      then show ?thesis by simp
    qed
  qed
qed

lemma lower_char_low: "(of_char (lower_char c) :: nat) < 65 \<Longrightarrow> lower_char c = c"
  by (auto simp: lower_char_def is_upper_def Let_def split: if_splits)

lemma lower_char_of_low: "(of_char c :: nat) < 65 \<Longrightarrow> lower_char c = c"
  by (auto simp: lower_char_def is_upper_def Let_def)

lemma digits_of_low: "c \<in> set (digits_of n) \<Longrightarrow> (of_char c :: nat) < 65"
proof (induction n rule: digits_of.induct)
  case (1 n)
  show ?case
  proof (cases "n < 10")
    case True
    with "1.prems" show ?thesis by (simp add: digits_of.simps [of n] digit_char_def)
  next
    case False
    with "1.prems" have "c \<in> set (digits_of (n div 10)) \<or> c = digit_char (n mod 10)"
      by (auto simp: digits_of.simps [of n])
    then show ?thesis
    proof
      assume "c \<in> set (digits_of (n div 10))"
      with False "1.IH" show ?thesis by simp
    next
      assume "c = digit_char (n mod 10)"
      moreover have "n mod 10 < 10" by simp
      ultimately show ?thesis by (simp add: digit_char_def)
    qed
  qed
qed

lemma decimal_numeral_low: "c \<in> set (decimal_numeral n) \<Longrightarrow> (of_char c :: nat) < 65"
  by (auto simp: decimal_numeral_def dest: digits_of_low split: if_splits)

lemma toLowerCase_low: "toLowerCase s = t \<Longrightarrow> \<forall>c\<in>set t. (of_char c :: nat) < 65 \<Longrightarrow> s = t"
proof (induction s arbitrary: t)
  case Nil
  then show ?case by (simp add: toLowerCase_def)
next
  case (Cons a s)
  from Cons.prems(1) obtain b u where t: "t = b # u" and b: "lower_char a = b"
    and u: "toLowerCase s = u"
    by (auto simp: toLowerCase_def)
  from Cons.prems(2) t have "(of_char b :: nat) < 65" and "\<forall>c\<in>set u. (of_char c :: nat) < 65"
    by auto
  with b u Cons.IH [of u] have "a = b" and "s = u"
    using lower_char_low [of a] by auto
  with t show ?case by simp
qed

lemma toLowerCase_of_low: "\<forall>c\<in>set s. (of_char c :: nat) < 65 \<Longrightarrow> toLowerCase s = s"
  by (induction s) (auto simp: toLowerCase_def lower_char_of_low)

text \<open>
  A text without letters (every code unit below \<open>A\<close>, as in a decimal numeral) equals the
  lower-cased query exactly when it equals the query.
\<close>

lemma eq_lowered_iff:
  assumes "\<forall>c\<in>set t. (of_char c :: nat) < 65"
  shows "t = toLowerCase s \<longleftrightarrow> t = s"
proof
  assume "t = toLowerCase s"
  then have "toLowerCase s = t" by simp
  then have "s = t" using assms by (rule toLowerCase_low)
  then show "t = s" by simp
next
  assume e: "t = s"
  with assms have "toLowerCase s = s" by (simp add: toLowerCase_of_low)
  with e show "t = toLowerCase s" by simp
qed

lemma toLowerCase_Nil_iff: "toLowerCase s = [] \<longleftrightarrow> s = []"
  by (simp add: toLowerCase_def)

text \<open>
  Claim C1, as amended. A query that trims to the empty string returns the list as it is.
  Otherwise \<open>filterItems\<close> keeps exactly the items whose name, as stored, contains the
  trimmed and lower-cased query, or whose identifier, as \<open>String\<close> prints it, equals the
  trimmed and lower-cased query. The name itself is not lower-cased. For lists whose names
  are in lower case and whose identifiers print without letters (as every integer of
  magnitude below \<open>10 ^ 21\<close> does), this is the filter as the specification words it: the name matched
  without regard to case, the identifier's numeral equal to the trimmed query.
\<close>

theorem filterItems_lowered_query:
  "filterItems str items q =
     (if trim q = [] then items
      else filter (\<lambda>p. (\<exists>pre suf. name p = pre @ toLowerCase (trim q) @ suf)
                        \<or> str (id' p) = toLowerCase (trim q)) items)
   \<and> ((\<forall>p\<in>set items. toLowerCase (name p) = name p
                         \<and> (\<forall>c\<in>set (str (id' p)). (of_char c :: nat) < 65)) \<longrightarrow>
        filterItems str items q = filterItems_spec str items q)"
proof -
  have code: "filterItems str items q =
     (if trim q = [] then items
      else filter (\<lambda>p. (\<exists>pre suf. name p = pre @ toLowerCase (trim q) @ suf)
                        \<or> str (id' p) = toLowerCase (trim q)) items)"
    by (simp add: filterItems_def Let_def toLowerCase_Nil_iff includes_str_iff)
  have "filterItems str items q = filterItems_spec str items q"
    if h: "\<forall>p\<in>set items. toLowerCase (name p) = name p
                         \<and> (\<forall>c\<in>set (str (id' p)). (of_char c :: nat) < 65)"
  proof -
    have "(includes_str (name p) (toLowerCase (trim q)) \<or> str (id' p) = toLowerCase (trim q))
        = (includes_str (toLowerCase (name p)) (toLowerCase (trim q)) \<or> str (id' p) = trim q)"
      if "p \<in> set items" for p
    proof -
      from h that have n: "toLowerCase (name p) = name p"
        and l: "\<forall>c\<in>set (str (id' p)). (of_char c :: nat) < 65"
        by blast+
      from l have "str (id' p) = toLowerCase (trim q) \<longleftrightarrow> str (id' p) = trim q"
        by (rule eq_lowered_iff)
      with n show ?thesis by simp
    qed
    then have "filter (\<lambda>p. includes_str (name p) (toLowerCase (trim q))
                          \<or> str (id' p) = toLowerCase (trim q)) items
        = filter (\<lambda>p. includes_str (toLowerCase (name p)) (toLowerCase (trim q))
                          \<or> str (id' p) = trim q) items"
      by (intro filter_cong) simp_all
    then show ?thesis
      by (simp add: filterItems_def filterItems_spec_def Let_def toLowerCase_Nil_iff)
  qed
  with code show ?thesis by blast
qed

theorem filterItems_lowered_query_witness:
  "filterItems decimal_numeral sample ''  BULB '' = filterItems_spec decimal_numeral sample ''  BULB ''
   \<and> filterItems decimal_numeral sample ''  BULB '' = [sample ! 0]
   \<and> filterItems decimal_numeral sample '' 4'' = [sample ! 2]"
proof -
  have h: "\<forall>p\<in>set sample. toLowerCase (name p) = name p
                         \<and> (\<forall>c\<in>set (decimal_numeral (id' p)). (of_char c :: nat) < 65)"
    by code_simp
  from filterItems_lowered_query [of decimal_numeral sample "''  BULB ''"] h
  have e: "filterItems decimal_numeral sample ''  BULB ''
             = filterItems_spec decimal_numeral sample ''  BULB ''"
    by blast
  have v: "filterItems decimal_numeral sample ''  BULB '' = [sample ! 0]"
    by code_simp
  have w: "filterItems decimal_numeral sample '' 4'' = [sample ! 2]"
    by code_simp
  from e v w show ?thesis by blast
qed

text \<open>
  Claim C1 as stated fails on a name with a capital letter: \<open>Bulbasaur\<close> contains
  \<open>bulb\<close> when case is disregarded, so the filter of the specification keeps the item, and
  \<open>filterItems\<close> drops it. (The identifier is 1, which \<open>String\<close> prints as its numeral.)
\<close>

theorem filterItems_case_counterexample:
  "filterItems decimal_numeral [(sample ! 0)\<lparr>name := ''Bulbasaur''\<rparr>] ''bulb'' = []
   \<and> filterItems_spec decimal_numeral [(sample ! 0)\<lparr>name := ''Bulbasaur''\<rparr>] ''bulb''
       = [(sample ! 0)\<lparr>name := ''Bulbasaur''\<rparr>]"
  by code_simp

text \<open>
  The assertions of \<open>runRuntimeTests\<close> hold in the model (with the decimal numeral for
  \<open>String\<close> and the code-unit collation for the sort by name).
\<close>

lemma runRuntimeTests_pass:
  "length (filterItems decimal_numeral sample ''bulb'') = 1"
  "length (filterItems decimal_numeral sample ''1'') = 1"
  "length (filterItems decimal_numeral sample []) = 3"
  "id' (sortItems code_unit_compare sample Id Asc ! 0) = 1"
  "id' (sortItems code_unit_compare sample Id Desc ! 0) = 4"
  "name (sortItems code_unit_compare sample Name Asc ! 0) = ''bulbasaur''"
  "base_experience (sortItems code_unit_compare sample Base_experience Desc ! 0) = 142"
  "indexOf (DetailView_order sample) 1 = 0"
  by code_simp+

section \<open>The enrichment: states reached by the workers\<close>

lemma claim_done: "length (light s) \<le> cursor s \<Longrightarrow> claim s = (Done, s)"
  by (simp add: claim_def)

lemma claim_take:
  "cursor s < length (light s) \<Longrightarrow>
     claim s = (Waiting (cursor s),
                s\<lparr>cursor := cursor s + 1,
                  requests := requests s @ [(cursor s, id' (light s ! cursor s))]\<rparr>)"
  by (simp add: claim_def)

lemma spawn_pow:
  "j \<le> length l \<Longrightarrow>
     (spawn ^^ j) \<lparr>light = l, cursor = 0, workers = [], requests = []\<rparr>
       = \<lparr>light = l, cursor = j, workers = map Waiting [0..<j],
          requests = map (\<lambda>i. (i, id' (l ! i))) [0..<j]\<rparr>"
proof (induction j)
  case 0
  show ?case by simp
next
  case (Suc j)
  then have "j < length l" by simp
  with Suc show ?case by (simp add: spawn_def claim_def)
qed

lemma init_state_eq:
  "init_state l =
     \<lparr>light = l, cursor = min concurrency (length l),
      workers = map Waiting [0..<min concurrency (length l)],
      requests = map (\<lambda>i. (i, id' (l ! i))) [0..<min concurrency (length l)]\<rparr>"
  unfolding init_state_def by (rule spawn_pow) simp

lemma inv_init: "inv resp l (init_state l)"
  by (auto simp: init_state_eq inv_def)

lemma length_on_response: "length (on_response l idx r) = length l"
  by (simp add: on_response_def split: sum.splits)

lemma deliver_SomeD:
  assumes "deliver resp s w = Some s'"
  obtains idx where "w < length (workers s)" and "workers s ! w = Waiting idx"
    and "length (light s) \<le> cursor s \<Longrightarrow>
           s' = s\<lparr>light := on_response (light s) idx (resp idx),
                  workers := (workers s)[w := Done]\<rparr>"
    and "cursor s < length (light s) \<Longrightarrow>
           s' = s\<lparr>light := on_response (light s) idx (resp idx),
                  cursor := cursor s + 1,
                  requests := requests s @
                    [(cursor s, id' (on_response (light s) idx (resp idx) ! cursor s))],
                  workers := (workers s)[w := Waiting (cursor s)]\<rparr>"
proof -
  from assms have w: "w < length (workers s)"
    by (simp add: deliver_def split: if_splits)
  from assms w obtain idx where i: "workers s ! w = Waiting idx"
    by (cases "workers s ! w") (simp_all add: deliver_def)
  let ?s1 = "s\<lparr>light := on_response (light s) idx (resp idx)\<rparr>"
  have d: "length (light s) \<le> cursor s \<Longrightarrow>
           s' = s\<lparr>light := on_response (light s) idx (resp idx),
                  workers := (workers s)[w := Done]\<rparr>"
    using assms w i by (simp add: deliver_def claim_def length_on_response)
  have t: "cursor s < length (light s) \<Longrightarrow>
           s' = s\<lparr>light := on_response (light s) idx (resp idx),
                  cursor := cursor s + 1,
                  requests := requests s @
                    [(cursor s, id' (on_response (light s) idx (resp idx) ! cursor s))],
                  workers := (workers s)[w := Waiting (cursor s)]\<rparr>"
    using assms w i by (simp add: deliver_def claim_def length_on_response)
  from w i d t show ?thesis by (rule that)
qed


lemma update_keeps_absent:
  assumes "w < length ws" and "ws ! w \<noteq> v" and "y \<noteq> v"
  shows "(\<forall>i<length ws. ws[w := y] ! i \<noteq> v) \<longleftrightarrow> (\<forall>i<length ws. ws ! i \<noteq> v)"
proof -
  have "ws[w := y] ! i \<noteq> v \<longleftrightarrow> ws ! i \<noteq> v" if "i < length ws" for i
    using that assms by (cases "i = w") simp_all
  then show ?thesis by blast
qed

lemma inv_deliver:
  assumes inv: "inv resp l s" and d: "deliver resp s w = Some s'"
  shows "inv resp l s'"
proof -
  from d obtain idx where w: "w < length (workers s)" and ww: "workers s ! w = Waiting idx"
    and caseA: "length (light s) \<le> cursor s \<Longrightarrow>
           s' = s\<lparr>light := on_response (light s) idx (resp idx),
                  workers := (workers s)[w := Done]\<rparr>"
    and caseB: "cursor s < length (light s) \<Longrightarrow>
           s' = s\<lparr>light := on_response (light s) idx (resp idx),
                  cursor := cursor s + 1,
                  requests := requests s @
                    [(cursor s, id' (on_response (light s) idx (resp idx) ! cursor s))],
                  workers := (workers s)[w := Waiting (cursor s)]\<rparr>"
    by (rule deliver_SomeD) blast
  let ?L = "on_response (light s) idx (resp idx)"
  let ?ws = "workers s"
  from inv have I1: "length (light s) = length l" and I2: "cursor s \<le> length l"
    and I3: "requests s = map (\<lambda>i. (i, id' (l ! i))) [0..<cursor s]"
    and I4: "\<And>i x. i < length ?ws \<Longrightarrow> ?ws ! i = Waiting x \<Longrightarrow> x < cursor s"
    and I5: "\<And>i j x. i < length ?ws \<Longrightarrow> j < length ?ws \<Longrightarrow> ?ws ! i = Waiting x
               \<Longrightarrow> ?ws ! j = Waiting x \<Longrightarrow> i = j"
    and I6: "\<And>j. j < length l \<Longrightarrow> light s ! j =
           (if j < cursor s \<and> (\<forall>i<length ?ws. ?ws ! i \<noteq> Waiting j)
            then answered resp l j else l ! j)"
    and I7: "(\<exists>i<length ?ws. ?ws ! i = Done) \<Longrightarrow> cursor s = length l"
    and I8: "length ?ws = min concurrency (length l)"
    unfolding inv_def by blast+
  have idx: "idx < cursor s" using I4 w ww by blast
  then have idxl: "idx < length l" using I2 by simp
  have old: "light s ! idx = l ! idx"
    using I6 [OF idxl] w ww by auto
  have Llen: "length ?L = length l"
    by (simp add: length_on_response I1)
  have Lidx: "?L ! idx = answered resp l idx"
    using old idxl I1 by (simp add: on_response_def answered_def split: sum.splits)
  have Lother: "?L ! j = light s ! j" if "j \<noteq> idx" for j
    using that by (simp add: on_response_def split: sum.splits)
  have only: "?ws ! i \<noteq> Waiting idx" if "i < length ?ws" and "i \<noteq> w" for i
    using I5 [OF that(1) w _ ww] that(2) by blast
  show ?thesis
  proof (cases "length (light s) \<le> cursor s")
    case True
    note s' = caseA [OF True]
    have c: "cursor s = length l" using True I1 I2 by simp
    have J6: "light s' ! j =
           (if j < cursor s' \<and> (\<forall>i<length (workers s'). workers s' ! i \<noteq> Waiting j)
            then answered resp l j else l ! j)" if j: "j < length l" for j
    proof (cases "j = idx")
      case True
      have "\<forall>i<length ?ws. (?ws[w := Done]) ! i \<noteq> Waiting idx"
        using w only by (auto simp: nth_list_update)
      with True idx Lidx show ?thesis by (simp add: s')
    next
      case False
      have "(\<forall>i<length ?ws. (?ws[w := Done]) ! i \<noteq> Waiting j)
              \<longleftrightarrow> (\<forall>i<length ?ws. ?ws ! i \<noteq> Waiting j)"
        using w ww False by (intro update_keeps_absent) simp_all
      with False I6 [OF j] Lother [OF False] show ?thesis by (simp add: s')
    qed
    have J4: "\<forall>i<length (workers s'). \<forall>x. workers s' ! i = Waiting x \<longrightarrow> x < cursor s'"
      using w I4 by (auto simp: s' nth_list_update split: if_splits)
    have J5: "\<forall>i<length (workers s'). \<forall>j<length (workers s'). \<forall>x.
           workers s' ! i = Waiting x \<and> workers s' ! j = Waiting x \<longrightarrow> i = j"
      using w I5 by (auto simp: s' nth_list_update split: if_splits)
    have J1: "length (light s') = length l" using Llen by (simp add: s')
    have J2: "cursor s' \<le> length l" using I2 by (simp add: s')
    have J3: "requests s' = map (\<lambda>i. (i, id' (l ! i))) [0..<cursor s']"
      using I3 by (simp add: s')
    have J7: "(\<exists>i<length (workers s'). workers s' ! i = Done) \<longrightarrow> cursor s' = length l"
      using c by (simp add: s')
    have J8: "length (workers s') = min concurrency (length l)" using I8 by (simp add: s')
    from J1 J2 J3 J4 J5 J6 J7 J8 show ?thesis
      unfolding inv_def by blast
  next
    case False
    then have lt: "cursor s < length (light s)" by simp
    note s' = caseB [OF lt]
    have cl: "cursor s < length l" using lt I1 by simp
    have cidx: "cursor s \<noteq> idx" using idx by simp
    have nodone: "?ws ! i \<noteq> Done" if "i < length ?ws" for i
      using I7 that cl by auto
    have "light s ! cursor s = l ! cursor s"
      using I6 [OF cl] by simp
    with Lother [OF cidx] have J3: "requests s' = map (\<lambda>i. (i, id' (l ! i))) [0..<cursor s']"
      by (simp add: s' I3)
    have J4: "\<forall>i<length (workers s'). \<forall>x. workers s' ! i = Waiting x \<longrightarrow> x < cursor s'"
      using w I4 by (auto simp: s' nth_list_update less_Suc_eq split: if_splits)
    have J5: "\<forall>i<length (workers s'). \<forall>j<length (workers s'). \<forall>x.
           workers s' ! i = Waiting x \<and> workers s' ! j = Waiting x \<longrightarrow> i = j"
    proof (intro allI impI)
      fix i j x
      assume i: "i < length (workers s')" and j: "j < length (workers s')"
        and e: "workers s' ! i = Waiting x \<and> workers s' ! j = Waiting x"
      show "i = j"
      proof (cases "i = w \<or> j = w")
        case True
        show ?thesis
        proof (rule ccontr)
          assume ne: "i \<noteq> j"
          from True ne e i j w have "\<exists>k<length ?ws. ?ws ! k = Waiting (cursor s)"
            by (auto simp: s' nth_list_update split: if_splits)
          then show False using I4 by blast
        qed
      next
        case False
        with i j e I5 w show ?thesis by (auto simp: s' nth_list_update)
      qed
    qed
    have J6: "light s' ! j =
           (if j < cursor s' \<and> (\<forall>i<length (workers s'). workers s' ! i \<noteq> Waiting j)
            then answered resp l j else l ! j)" if j: "j < length l" for j
    proof -
      consider "j = idx" | "j = cursor s" | "j \<noteq> idx" "j \<noteq> cursor s" by blast
      then show ?thesis
      proof cases
        case 1
        have "\<forall>i<length ?ws. (?ws[w := Waiting (cursor s)]) ! i \<noteq> Waiting idx"
          using w only cidx by (auto simp: nth_list_update)
        with 1 idx Lidx show ?thesis by (simp add: s')
      next
        case 2
        have "\<not> (\<forall>i<length ?ws. (?ws[w := Waiting (cursor s)]) ! i \<noteq> Waiting (cursor s))"
          using w w by (auto simp: nth_list_update)
        moreover have "light s ! cursor s = l ! cursor s"
          using I6 [OF cl] by simp
        ultimately show ?thesis using 2 Lother [OF cidx] by (auto simp: s')
      next
        case 3
        have "(\<forall>i<length ?ws. (?ws[w := Waiting (cursor s)]) ! i \<noteq> Waiting j)
              \<longleftrightarrow> (\<forall>i<length ?ws. ?ws ! i \<noteq> Waiting j)"
          using w ww 3 by (intro update_keeps_absent) simp_all
        moreover have "j < cursor s + 1 \<longleftrightarrow> j < cursor s" using 3 by auto
        ultimately show ?thesis using I6 [OF j] Lother [OF 3(1)] by (simp add: s')
      qed
    qed
    have J7: "\<not> (\<exists>i<length (workers s'). workers s' ! i = Done)"
      using w nodone by (auto simp: s' nth_list_update split: if_splits)
    have J1: "length (light s') = length l" using Llen by (simp add: s')
    have J2: "cursor s' \<le> length l" using cl by (simp add: s')
    have J8: "length (workers s') = min concurrency (length l)" using I8 by (simp add: s')
    from J1 J2 J3 J4 J5 J6 J7 J8 show ?thesis
      unfolding inv_def by blast
  qed
qed

lemma inv_run: "inv resp l s \<Longrightarrow> run resp s ws = Some s' \<Longrightarrow> inv resp l s'"
proof (induction ws arbitrary: s)
  case Nil
  then show ?case by simp
next
  case (Cons w ws)
  from Cons.prems(2) obtain s1 where d: "deliver resp s w = Some s1" and r: "run resp s1 ws = Some s'"
    by (auto split: option.splits)
  from Cons.prems(1) d have "inv resp l s1" by (rule inv_deliver)
  then show ?case using r by (rule Cons.IH)
qed


lemma in_flight_update_Done:
  assumes "w < length ws" and "ws ! w \<noteq> Done"
  shows "length (filter (\<lambda>x. x \<noteq> Done) (ws[w := Done])) + 1 = length (filter (\<lambda>x. x \<noteq> Done) ws)"
proof -
  have e: "take w ws @ ws ! w # drop (Suc w) ws = ws"
    using id_take_nth_drop [OF assms(1)] by simp
  have "length (filter (\<lambda>x. x \<noteq> Done) ws)
      = length (filter (\<lambda>x. x \<noteq> Done) (take w ws @ ws ! w # drop (Suc w) ws))"
    by (simp only: e)
  also have "\<dots> = length (filter (\<lambda>x. x \<noteq> Done) (take w ws)) + 1
        + length (filter (\<lambda>x. x \<noteq> Done) (drop (Suc w) ws))"
    using assms(2) by simp
  finally have "length (filter (\<lambda>x. x \<noteq> Done) ws)
      = length (filter (\<lambda>x. x \<noteq> Done) (take w ws)) + 1
        + length (filter (\<lambda>x. x \<noteq> Done) (drop (Suc w) ws))" .
  moreover have "ws[w := Done] = take w ws @ Done # drop (Suc w) ws"
    using assms(1) by (rule upd_conv_take_nth_drop)
  ultimately show ?thesis by simp
qed

lemma in_flight_update_Waiting:
  assumes "w < length ws" and "ws ! w \<noteq> Done"
  shows "length (filter (\<lambda>x. x \<noteq> Done) (ws[w := Waiting c])) = length (filter (\<lambda>x. x \<noteq> Done) ws)"
proof -
  have e: "take w ws @ ws ! w # drop (Suc w) ws = ws"
    using id_take_nth_drop [OF assms(1)] by simp
  have "length (filter (\<lambda>x. x \<noteq> Done) ws)
      = length (filter (\<lambda>x. x \<noteq> Done) (take w ws @ ws ! w # drop (Suc w) ws))"
    by (simp only: e)
  also have "\<dots> = length (filter (\<lambda>x. x \<noteq> Done) (take w ws)) + 1
        + length (filter (\<lambda>x. x \<noteq> Done) (drop (Suc w) ws))"
    using assms(2) by simp
  finally have "length (filter (\<lambda>x. x \<noteq> Done) ws)
      = length (filter (\<lambda>x. x \<noteq> Done) (take w ws)) + 1
        + length (filter (\<lambda>x. x \<noteq> Done) (drop (Suc w) ws))" .
  moreover have "ws[w := Waiting c] = take w ws @ Waiting c # drop (Suc w) ws"
    using assms(1) by (rule upd_conv_take_nth_drop)
  ultimately show ?thesis by simp
qed

lemma deliver_count:
  assumes "deliver resp s w = Some s'"
  shows "cursor s' + in_flight s = cursor s + in_flight s' + 1"
proof -
  from assms obtain idx where w: "w < length (workers s)" and ww: "workers s ! w = Waiting idx"
    and caseA: "length (light s) \<le> cursor s \<Longrightarrow>
           s' = s\<lparr>light := on_response (light s) idx (resp idx),
                  workers := (workers s)[w := Done]\<rparr>"
    and caseB: "cursor s < length (light s) \<Longrightarrow>
           s' = s\<lparr>light := on_response (light s) idx (resp idx),
                  cursor := cursor s + 1,
                  requests := requests s @
                    [(cursor s, id' (on_response (light s) idx (resp idx) ! cursor s))],
                  workers := (workers s)[w := Waiting (cursor s)]\<rparr>"
    by (rule deliver_SomeD) blast
  from ww have nd: "workers s ! w \<noteq> Done" by simp
  show ?thesis
  proof (cases "length (light s) \<le> cursor s")
    case True
    show ?thesis
      using in_flight_update_Done [OF w nd] by (simp add: caseA [OF True] in_flight_def)
  next
    case False
    then have "cursor s < length (light s)" by simp
    then show ?thesis
      using in_flight_update_Waiting [OF w nd] by (simp add: caseB in_flight_def)
  qed
qed

lemma run_count:
  "run resp s ws = Some s' \<Longrightarrow> cursor s' + in_flight s = cursor s + in_flight s' + length ws"
proof (induction ws arbitrary: s)
  case Nil
  then show ?case by simp
next
  case (Cons w ws)
  from Cons.prems obtain s1 where d: "deliver resp s w = Some s1" and r: "run resp s1 ws = Some s'"
    by (auto split: option.splits)
  from deliver_count [OF d] Cons.IH [OF r] show ?case by simp
qed

lemma in_flight_init: "in_flight (init_state l) = min concurrency (length l)"
  by (simp add: init_state_eq in_flight_def)

lemma cursor_init: "cursor (init_state l) = min concurrency (length l)"
  by (simp add: init_state_eq)

lemma finished_iff: "finished s \<longleftrightarrow> in_flight s = 0"
  by (auto simp: finished_def in_flight_def list_all_iff filter_empty_conv)

lemma answered_enriched: "j < length l \<Longrightarrow> enriched resp l ! j = answered resp l j"
  by (simp add: enriched_def answered_def split: sum.splits)

lemma finished_cursor:
  assumes "inv resp l s" and "finished s"
  shows "cursor s = length l"
proof (cases "workers s")
  case Nil
  with assms(1) have "min concurrency (length l) = 0" by (simp add: inv_def)
  then have "length l = 0" by (simp add: concurrency_def min_def split: if_splits)
  with assms(1) show ?thesis by (simp add: inv_def)
next
  case (Cons x xs)
  with assms(2) have "0 < length (workers s) \<and> workers s ! 0 = Done"
    by (simp add: finished_def)
  then have "\<exists>i<length (workers s). workers s ! i = Done" by blast
  with assms(1) show ?thesis unfolding inv_def by blast
qed

lemma finished_light:
  assumes "inv resp l s" and "finished s"
  shows "light s = enriched resp l"
proof (rule nth_equalityI)
  show "length (light s) = length (enriched resp l)"
    using assms(1) by (simp add: inv_def enriched_def)
next
  fix j
  assume "j < length (light s)"
  then have j: "j < length l" using assms(1) by (simp add: inv_def)
  have c: "cursor s = length l" using assms by (rule finished_cursor)
  have "\<forall>i<length (workers s). workers s ! i \<noteq> Waiting j"
    using assms(2) by (auto simp: finished_def list_all_length)
  moreover from assms(1) j have "light s ! j =
           (if j < cursor s \<and> (\<forall>i<length (workers s). workers s ! i \<noteq> Waiting j)
            then answered resp l j else l ! j)"
    unfolding inv_def by blast
  ultimately show "light s ! j = enriched resp l ! j"
    using j c by (simp add: answered_enriched)
qed

lemma progress:
  assumes "\<not> finished s"
  shows "\<exists>w s'. deliver resp s w = Some s'"
proof -
  from assms obtain w where w: "w < length (workers s)" and nd: "workers s ! w \<noteq> Done"
    by (auto simp: finished_def list_all_length)
  then obtain idx where "workers s ! w = Waiting idx"
    by (cases "workers s ! w") simp_all
  with w have "deliver resp s w \<noteq> None"
    by (simp add: deliver_def split: prod.splits)
  then show ?thesis by blast
qed

lemma completion:
  "inv resp l s \<Longrightarrow> \<exists>ws s'. run resp s ws = Some s' \<and> finished s'"
proof (induction "length l - cursor s + in_flight s" arbitrary: s rule: less_induct)
  case less
  show ?case
  proof (cases "finished s")
    case True
    then have "run resp s [] = Some s \<and> finished s" by simp
    then show ?thesis by blast
  next
    case False
    then obtain w s1 where d: "deliver resp s w = Some s1"
      using progress by blast
    from less.prems d have i1: "inv resp l s1" by (rule inv_deliver)
    then have "cursor s1 \<le> length l" by (simp add: inv_def)
    moreover from less.prems have "cursor s \<le> length l" by (simp add: inv_def)
    ultimately have "length l - cursor s1 + in_flight s1 < length l - cursor s + in_flight s"
      using deliver_count [OF d] by linarith
    from less.hyps [OF this i1] obtain ws s' where "run resp s1 ws = Some s'" and f: "finished s'"
      by blast
    with d have "run resp s (w # ws) = Some s'" by simp
    with f show ?thesis by blast
  qed
qed

lemma run_from_init:
  assumes "run resp (init_state l) ws = Some s"
  shows "inv resp l s"
  using inv_init assms by (rule inv_run)

section \<open>Properties of the light list\<close>

subsection \<open>The trailing segment of a URL\<close>

lemma split_at_not_Nil: "split_at sep s \<noteq> []"
  by (induction s) (auto split: list.splits)

lemma split_at_append_sep:
  "split_at sep (xs @ sep # ys) = split_at sep xs @ split_at sep ys"
proof (induction xs)
  case Nil
  show ?case by simp
next
  case (Cons c cs)
  show ?case
  proof (cases "c = sep")
    case True
    with Cons show ?thesis by simp
  next
    case False
    obtain w ws where w: "split_at sep cs = w # ws"
      using split_at_not_Nil [of sep cs] by (cases "split_at sep cs") auto
    with False Cons show ?thesis by simp
  qed
qed

lemma split_at_no_sep: "sep \<notin> set s \<Longrightarrow> split_at sep s = [s]"
  by (induction s) auto

lemma split_at_trailing_seps:
  "sep \<notin> set seg \<Longrightarrow> split_at sep (seg @ replicate k sep) = seg # replicate k []"
proof (induction k)
  case 0
  then show ?case by (simp add: split_at_no_sep)
next
  case (Suc k)
  have "seg @ replicate (Suc k) sep = (seg @ replicate k sep) @ sep # []"
    by (simp add: replicate_append_same)
  then have "split_at sep (seg @ replicate (Suc k) sep)
      = split_at sep (seg @ replicate k sep) @ split_at sep []"
    by (simp only: split_at_append_sep)
  with Suc show ?case by (simp add: replicate_append_same)
qed

lemma filter_nonempty_replicate: "filter (\<lambda>seg. seg \<noteq> []) (replicate k ([] :: string)) = []"
  by (induction k) auto

text \<open>
  The trailing segment is the last piece between slashes that is not empty: a piece \<open>seg\<close>
  that stands at the start of the URL or after a slash, with nothing but slashes behind it.
  A URL of slashes only has none.
\<close>

lemma trailing_segment_last:
  assumes "seg \<noteq> []" and "CHR ''/'' \<notin> set seg" and "pre = [] \<or> last pre = CHR ''/''"
  shows "trailing_segment (pre @ seg @ replicate k (CHR ''/'')) = Some seg"
proof -
  have tail: "filter (\<lambda>s. s \<noteq> []) (split_at CHR ''/'' (seg @ replicate k (CHR ''/''))) = [seg]"
    using assms(1,2) by (simp add: split_at_trailing_seps filter_nonempty_replicate)
  show ?thesis
  proof (cases "pre = []")
    case True
    with tail show ?thesis by (simp add: trailing_segment_def pop_def)
  next
    case False
    with assms(3) have "pre = butlast pre @ [CHR ''/'']"
      by (metis append_butlast_last_id)
    then have "pre @ seg @ replicate k (CHR ''/'')
        = butlast pre @ CHR ''/'' # (seg @ replicate k (CHR ''/''))"
      by (metis append.assoc append_Cons append_Nil)
    then have "split_at CHR ''/'' (pre @ seg @ replicate k (CHR ''/''))
        = split_at CHR ''/'' (butlast pre) @ split_at CHR ''/'' (seg @ replicate k (CHR ''/''))"
      by (simp only: split_at_append_sep)
    with tail show ?thesis by (simp add: trailing_segment_def pop_def)
  qed
qed

lemma trailing_segment_none: "trailing_segment (replicate k (CHR ''/'')) = None"
proof -
  have "split_at CHR ''/'' ([] @ replicate k (CHR ''/'')) = [] # replicate k []"
    by (rule split_at_trailing_seps) simp
  then show ?thesis
    by (simp add: trailing_segment_def pop_def filter_nonempty_replicate)
qed

subsection \<open>The order of the list\<close>

lemma js_le_trans: "js_le a b \<Longrightarrow> js_le b c \<Longrightarrow> js_le a c"
  by (cases a; cases b; cases c) auto

lemma reads_le: "a \<noteq> NaN \<Longrightarrow> b \<noteq> NaN \<Longrightarrow> sort_reads (js_minus a b) \<le> 0 \<Longrightarrow> js_le a b"
  by (cases a; cases b) (auto split: if_splits)

lemma reads_gt: "a \<noteq> NaN \<Longrightarrow> b \<noteq> NaN \<Longrightarrow> \<not> sort_reads (js_minus a b) \<le> 0 \<Longrightarrow> js_le b a"
  by (cases a; cases b) (auto split: if_splits)

lemma set_insert_by: "set (insert_by cmp x ys) = insert x (set ys)"
  by (induction ys) auto

lemma set_Array_sort: "set (Array_sort cmp xs) = set xs"
  by (induction xs) (simp_all add: Array_sort_Nil Array_sort_Cons set_insert_by)

lemma ascending_insert_by:
  assumes "f x \<noteq> NaN" and "\<forall>y\<in>set ys. f y \<noteq> NaN" and "sorted_wrt js_le (map f ys)"
  shows "sorted_wrt js_le (map f (insert_by (\<lambda>a b. sort_reads (js_minus (f a) (f b))) x ys))"
  using assms(2,3)
proof (induction ys)
  case Nil
  show ?case by simp
next
  case (Cons y ys)
  show ?case
  proof (cases "sort_reads (js_minus (f x) (f y)) \<le> 0")
    case True
    with assms(1) Cons.prems(1) have xy: "js_le (f x) (f y)"
      by (simp add: reads_le)
    have "js_le (f x) (f z)" if "z \<in> set ys" for z
    proof -
      from Cons.prems(2) that have "js_le (f y) (f z)" by simp
      with xy show ?thesis by (rule js_le_trans)
    qed
    with xy True Cons.prems(2) show ?thesis by auto
  next
    case False
    with assms(1) Cons.prems(1) have yx: "js_le (f y) (f x)"
      by (simp add: reads_gt)
    from Cons.prems have "sorted_wrt js_le
        (map f (insert_by (\<lambda>a b. sort_reads (js_minus (f a) (f b))) x ys))"
      by (intro Cons.IH) simp_all
    with False yx Cons.prems(2) show ?thesis
      by (auto simp: set_insert_by)
  qed
qed

lemma ascending_Array_sort:
  assumes "\<forall>y\<in>set xs. f y \<noteq> NaN"
  shows "sorted_wrt js_le (map f (Array_sort (\<lambda>a b. sort_reads (js_minus (f a) (f b))) xs))"
  using assms
proof (induction xs)
  case Nil
  show ?case by (simp add: Array_sort_Nil)
next
  case (Cons x xs)
  then have "sorted_wrt js_le
      (map f (Array_sort (\<lambda>a b. sort_reads (js_minus (f a) (f b))) xs))"
    by simp
  moreover have "f x \<noteq> NaN" using Cons.prems by simp
  moreover have "\<forall>y\<in>set (Array_sort (\<lambda>a b. sort_reads (js_minus (f a) (f b))) xs). f y \<noteq> NaN"
    using Cons.prems by (simp add: set_Array_sort)
  ultimately show ?case
    by (simp add: Array_sort_Cons ascending_insert_by)
qed

text \<open>No order of a list with a \<open>NaN\<close> and another element is ascending.\<close>

lemma NaN_not_ascending: "NaN \<in> set xs \<Longrightarrow> 2 \<le> length xs \<Longrightarrow> \<not> ascending xs"
proof (induction xs)
  case Nil
  then show ?case by simp
next
  case (Cons x xs)
  show ?case
  proof (cases "x = NaN")
    case True
    from Cons.prems(2) obtain y ys where "xs = y # ys" by (cases xs) auto
    with True show ?thesis by (auto simp: ascending_def)
  next
    case False
    with Cons.prems(1) have n: "NaN \<in> set xs" by simp
    have "\<not> js_le x NaN" by (cases x) auto
    with n show ?thesis by (auto simp: ascending_def)
  qed
qed

lemma light_init_state: "light (init_state l) = l"
  by (simp add: init_state_eq)

text \<open>
  Claim C5, as amended. For every page response, and whatever \<open>Number\<close> and \<open>String\<close>
  return, the light list has one entry for each result of the page: its identifier is
  \<open>Number\<close> of the trailing segment of the result's URL (of \<open>undefined\<close> when the URL has no
  segment), with the name and URL of the result, no category label, and \<open>-1\<close> for base
  experience, height and weight. The trailing segment is the last non-empty piece between
  slashes. When no identifier is \<open>NaN\<close>, the list is in ascending order of identifier. It is
  this list that the enrichment starts from.
\<close>

theorem build_light_sorted:
  "length (build_light num str list) = length list
   \<and> mset (build_light num str list) = mset (map (\<lambda>it.
         \<lparr>id' = num (trailing_segment (res_url it)),
          name = res_name it, url = res_url it,
          image' = sprite_url str (num (trailing_segment (res_url it))),
          types = [], base_experience = - 1, height = - 1, weight = - 1\<rparr>) list)
   \<and> (\<forall>pre seg k. seg \<noteq> [] \<and> CHR ''/'' \<notin> set seg \<and> (pre = [] \<or> last pre = CHR ''/'') \<longrightarrow>
          trailing_segment (pre @ seg @ replicate k (CHR ''/'')) = Some seg)
   \<and> (\<forall>k. trailing_segment (replicate k (CHR ''/'')) = None)
   \<and> ((\<forall>it\<in>set list. num (trailing_segment (res_url it)) \<noteq> NaN) \<longrightarrow>
          ascending (map id' (build_light num str list)))
   \<and> (\<forall>p\<in>set (build_light num str list).
          types p = [] \<and> base_experience p = - 1 \<and> height p = - 1 \<and> weight p = - 1)
   \<and> light (init_state (build_light num str list)) = build_light num str list"
proof -
  let ?entry = "\<lambda>it. \<lparr>id' = num (trailing_segment (res_url it)),
          name = res_name it, url = res_url it,
          image' = sprite_url str (num (trailing_segment (res_url it))),
          types = [], base_experience = - 1, height = - 1, weight = - 1\<rparr>"
  let ?l = "build_light num str list"
  have e: "map (light_item num str) list = map ?entry list"
    by (simp add: light_item_def Let_def)
  have b: "?l = Array_sort (\<lambda>a b. sort_reads (js_minus (id' a) (id' b))) (map ?entry list)"
    by (simp add: build_light_def e)
  have m: "mset ?l = mset (map ?entry list)"
    by (simp add: b mset_Array_sort)
  have len: "length ?l = length list"
    using mset_eq_length [OF m] by simp
  have seg: "\<forall>pre seg k. seg \<noteq> [] \<and> CHR ''/'' \<notin> set seg \<and> (pre = [] \<or> last pre = CHR ''/'') \<longrightarrow>
          trailing_segment (pre @ seg @ replicate k (CHR ''/'')) = Some seg"
    using trailing_segment_last by blast
  have none: "\<forall>k. trailing_segment (replicate k (CHR ''/'')) = None"
    by (simp add: trailing_segment_none)
  have asc: "ascending (map id' ?l)"
    if "\<forall>it\<in>set list. num (trailing_segment (res_url it)) \<noteq> NaN"
  proof -
    from that have "\<forall>y\<in>set (map ?entry list). id' y \<noteq> NaN" by simp
    then have "sorted_wrt js_le (map id'
        (Array_sort (\<lambda>a b. sort_reads (js_minus (id' a) (id' b))) (map ?entry list)))"
      by (rule ascending_Array_sort)
    then show ?thesis by (simp add: ascending_def b)
  qed
  have "set ?l = set (map ?entry list)"
    using m by (rule mset_eq_setD)
  then have f: "\<forall>p\<in>set ?l. types p = [] \<and> base_experience p = - 1 \<and> height p = - 1 \<and> weight p = - 1"
    by auto
  have i: "light (init_state ?l) = ?l"
    by (rule light_init_state)
  from len m seg none asc f i show ?thesis by blast
qed

theorem build_light_sorted_witness:
  "build_light Number_example String_example sample_page = sample_light
   \<and> map id' sample_light = [Fin 1, Fin 4]
   \<and> map name sample_light = [''bulbasaur'', ''charmander'']
   \<and> ascending (map id' sample_light)
   \<and> trailing_segment ''https://pokeapi.co/api/v2/pokemon/25/'' = Some ''25''
   \<and> light (init_state sample_light) = sample_light"
proof -
  have h: "\<forall>it\<in>set sample_page. Number_example (trailing_segment (res_url it)) \<noteq> NaN"
    by code_simp
  have v: "build_light Number_example String_example sample_page = sample_light"
    by code_simp
  have u: "''25'' \<noteq> [] \<and> CHR ''/'' \<notin> set ''25''
      \<and> (''https://pokeapi.co/api/v2/pokemon/'' = []
           \<or> last ''https://pokeapi.co/api/v2/pokemon/'' = CHR ''/'')"
    by code_simp
  note t = build_light_sorted [of Number_example String_example sample_page]
  from t h have "ascending (map id' (build_light Number_example String_example sample_page))"
    by blast
  with v have a: "ascending (map id' sample_light)" by simp
  from t v have i: "light (init_state sample_light) = sample_light" by simp
  from t u have "trailing_segment
      (''https://pokeapi.co/api/v2/pokemon/'' @ ''25'' @ replicate 1 (CHR ''/'')) = Some ''25''"
    by blast
  then have s: "trailing_segment ''https://pokeapi.co/api/v2/pokemon/25/'' = Some ''25''"
    by simp
  have "map id' sample_light = [Fin 1, Fin 4]"
    and "map name sample_light = [''bulbasaur'', ''charmander'']"
    by code_simp+
  with v a s i show ?thesis by blast
qed

text \<open>
  Claim C5 as stated fails on a page with a reference that has no numeric trailing
  segment: \<open>Number\<close> gives \<open>NaN\<close>, the comparator returns \<open>NaN\<close> next to it, which the sort
  reads as equal, and the entries with identifiers 2 and 1 stay in the order of the page.
\<close>

theorem build_light_NaN_counterexample:
  "trailing_segment (res_url (stray_page ! 1)) = None
   \<and> map id' (build_light Number_example String_example stray_page) = [Fin 2, NaN, Fin 1]
   \<and> \<not> js_le (Fin 2) (Fin 1)
   \<and> \<not> ascending (map id' (build_light Number_example String_example stray_page))"
  by code_simp

section \<open>Properties of the enrichment\<close>

text \<open>
  Claim C3. In every state that the enrichment of a list of \<open>n\<close> entries reaches, whatever
  the responses and the order of their arrival: there are \<open>min(4, n)\<close> workers on the one
  cursor, so at most 4 requests are in flight; the requests issued are exactly those of the
  indices below the cursor, one each and in order, and each is in flight or answered. When
  all workers have returned, \<open>n\<close> requests were issued, one per entry, and \<open>n\<close> responses
  handled; every entry is then its original with its own response applied (unchanged when
  that response is a failure), so a failure touches no other entry. A failure does not
  stop the workers either: from every reachable state the run can be completed.
\<close>

theorem enrichment_workers:
  assumes "run resp (init_state l) ws = Some s"
  shows "length (workers s) = min 4 (length l)
       \<and> in_flight s \<le> 4
       \<and> cursor s \<le> length l
       \<and> requests s = map (\<lambda>i. (i, id' (l ! i))) [0..<cursor s]
       \<and> cursor s = in_flight s + length ws
       \<and> (finished s \<longrightarrow>
            length (requests s) = length l
            \<and> map fst (requests s) = [0..<length l]
            \<and> length ws = length l
            \<and> (\<forall>j<length l. light s ! j =
                  (case resp j of Inl e \<Rightarrow> l ! j | Inr d \<Rightarrow> enrich_item (l ! j) d)))
       \<and> (\<exists>ws' s'. run resp s ws' = Some s' \<and> finished s')"
proof -
  have i: "inv resp l s" using assms by (rule run_from_init)
  have w: "length (workers s) = min 4 (length l)"
    using i by (simp add: inv_def concurrency_def)
  have "in_flight s \<le> length (workers s)"
    by (simp add: in_flight_def)
  with w have f: "in_flight s \<le> 4" by simp
  have c: "cursor s \<le> length l" using i by (simp add: inv_def)
  have r: "requests s = map (\<lambda>i. (i, id' (l ! i))) [0..<cursor s]"
    using i by (simp add: inv_def)
  have n: "cursor s = in_flight s + length ws"
    using run_count [OF assms] by (simp add: in_flight_init cursor_init)
  have fin: "length (requests s) = length l
            \<and> map fst (requests s) = [0..<length l]
            \<and> length ws = length l
            \<and> (\<forall>j<length l. light s ! j =
                  (case resp j of Inl e \<Rightarrow> l ! j | Inr d \<Rightarrow> enrich_item (l ! j) d))"
    if "finished s"
  proof -
    have cl: "cursor s = length l" using i that by (rule finished_cursor)
    have "map fst (requests s) = [0..<length l]"
      by (simp add: r cl comp_def map_upt_eqI)
    moreover have "length (requests s) = length l" by (simp add: r cl)
    moreover have "length ws = length l"
      using n that cl by (simp add: finished_iff)
    moreover have "light s ! j = (case resp j of Inl e \<Rightarrow> l ! j | Inr d \<Rightarrow> enrich_item (l ! j) d)"
      if "j < length l" for j
      using finished_light [OF i \<open>finished s\<close>] answered_enriched [OF that]
      by (simp add: answered_def)
    ultimately show ?thesis by blast
  qed
  have "\<exists>ws' s'. run resp s ws' = Some s' \<and> finished s'"
    using i by (rule completion)
  with w f c r n fin show ?thesis by blast
qed


theorem enrichment_workers_witness:
  "run sample_resp (init_state (sample @ sample)) [0, 1, 0, 3, 2, 1] = Some sample_final
   \<and> finished sample_final
   \<and> length (workers sample_final) = 4
   \<and> map fst (requests sample_final) = [0, 1, 2, 3, 4, 5]
   \<and> light sample_final ! 1 = sample ! 1
   \<and> light sample_final ! 2 = enrich_item (sample ! 2) sample_detail"
proof -
  have r: "run sample_resp (init_state (sample @ sample)) [0, 1, 0, 3, 2, 1] = Some sample_final"
    by code_simp
  have f: "finished sample_final"
    by code_simp
  have n: "length (sample @ sample) = 6" "min 4 (6::nat) = 4" "[0..<6] = [0, 1, 2, 3, 4, 5]"
    by code_simp+
  have e: "(1::nat) < 6" "(2::nat) < 6" "sample_resp 1 = Inl TransportError"
    "sample_resp 2 = Inr sample_detail" "(sample @ sample) ! 1 = sample ! 1"
    "(sample @ sample) ! 2 = sample ! 2"
    by code_simp+
  from enrichment_workers [OF r] f
  have w: "length (workers sample_final) = min 4 (length (sample @ sample))"
    and q: "map fst (requests sample_final) = [0..<length (sample @ sample)]"
    and a: "\<forall>j<length (sample @ sample). light sample_final ! j =
           (case sample_resp j of Inl e \<Rightarrow> (sample @ sample) ! j
            | Inr d \<Rightarrow> enrich_item ((sample @ sample) ! j) d)"
    by blast+
  from a have "light sample_final ! 1 =
           (case sample_resp 1 of Inl e \<Rightarrow> (sample @ sample) ! 1
            | Inr d \<Rightarrow> enrich_item ((sample @ sample) ! 1) d)"
    using e(1) by (simp only: n(1))
  then have a1: "light sample_final ! 1 = sample ! 1"
    by (simp only: e sum.case)
  from a have "light sample_final ! 2 =
           (case sample_resp 2 of Inl e \<Rightarrow> (sample @ sample) ! 2
            | Inr d \<Rightarrow> enrich_item ((sample @ sample) ! 2) d)"
    using e(2) by (simp only: n(1))
  then have a2: "light sample_final ! 2 = enrich_item (sample ! 2) sample_detail"
    by (simp only: e sum.case)
  from w have w4: "length (workers sample_final) = 4" by (simp only: n)
  from q have q6: "map fst (requests sample_final) = [0, 1, 2, 3, 4, 5]" by (simp only: n)
  from r f w4 q6 a1 a2 show ?thesis by blast
qed

text \<open>
  Claim C2, as amended. The list being enriched starts with \<open>-1\<close> in base experience,
  height and weight. In every state reached, and after every further response, each entry
  has the identifier and name it started with. Handling a response either leaves an entry
  as it is, or finds its three fields at \<open>-1\<close> and sets them to the values of that
  entry's own successful response; an entry is written once at most. Provided the
  successful responses carry non-negative values, every field therefore stays as it is or
  goes from \<open>-1\<close> to a non-negative value, and never back.
\<close>

theorem enrichment_transitions:
  assumes sentinel: "\<forall>p\<in>set l. base_experience p = - 1 \<and> height p = - 1 \<and> weight p = - 1"
    and run: "run resp (init_state l) ws = Some s"
    and step: "deliver resp s w = Some s'"
    and j: "j < length l"
  shows "id' (light s ! j) = id' (l ! j) \<and> name (light s ! j) = name (l ! j)
       \<and> id' (light s' ! j) = id' (l ! j) \<and> name (light s' ! j) = name (l ! j)
       \<and> (light s' ! j = light s ! j
          \<or> (base_experience (light s ! j) = - 1 \<and> height (light s ! j) = - 1
               \<and> weight (light s ! j) = - 1
               \<and> (\<exists>d. resp j = Inr d
                     \<and> base_experience (light s' ! j) = d_base_experience d
                     \<and> height (light s' ! j) = d_height d
                     \<and> weight (light s' ! j) = d_weight d)))
       \<and> ((\<forall>i d. resp i = Inr d \<longrightarrow>
               0 \<le> d_base_experience d \<and> 0 \<le> d_height d \<and> 0 \<le> d_weight d) \<longrightarrow>
            sentinel_step (base_experience (light s ! j)) (base_experience (light s' ! j))
            \<and> sentinel_step (height (light s ! j)) (height (light s' ! j))
            \<and> sentinel_step (weight (light s ! j)) (weight (light s' ! j)))"
proof -
  have i: "inv resp l s" using run by (rule run_from_init)
  have i': "inv resp l s'" using i step by (rule inv_deliver)
  have fields: "id' (answered resp l j) = id' (l ! j) \<and> name (answered resp l j) = name (l ! j)"
    by (simp add: answered_def enrich_item_def split: sum.splits)
  have at: "light t ! j = l ! j \<or> light t ! j = answered resp l j" if "inv resp l t" for t
  proof -
    from that j have "light t ! j =
           (if j < cursor t \<and> (\<forall>i<length (workers t). workers t ! i \<noteq> Waiting j)
            then answered resp l j else l ! j)"
      unfolding inv_def by blast
    then show ?thesis by presburger
  qed
  have a: "id' (light s ! j) = id' (l ! j) \<and> name (light s ! j) = name (l ! j)"
    using at [OF i] fields by auto
  have b: "id' (light s' ! j) = id' (l ! j) \<and> name (light s' ! j) = name (l ! j)"
    using at [OF i'] fields by auto
  from step obtain idx where w: "w < length (workers s)" and ww: "workers s ! w = Waiting idx"
    and caseA: "length (light s) \<le> cursor s \<Longrightarrow>
           s' = s\<lparr>light := on_response (light s) idx (resp idx),
                  workers := (workers s)[w := Done]\<rparr>"
    and caseB: "cursor s < length (light s) \<Longrightarrow>
           s' = s\<lparr>light := on_response (light s) idx (resp idx),
                  cursor := cursor s + 1,
                  requests := requests s @
                    [(cursor s, id' (on_response (light s) idx (resp idx) ! cursor s))],
                  workers := (workers s)[w := Waiting (cursor s)]\<rparr>"
    by (rule deliver_SomeD) blast
  have L: "light s' = on_response (light s) idx (resp idx)"
  proof (cases "length (light s) \<le> cursor s")
    case True
    then show ?thesis by (simp add: caseA)
  next
    case False
    then have "cursor s < length (light s)" by simp
    then show ?thesis by (simp add: caseB)
  qed
  have len: "length (light s) = length l" using i by (simp add: inv_def)
  have untouched: "light s ! idx = l ! idx"
  proof -
    from i w ww have "idx < cursor s" unfolding inv_def by blast
    moreover from i have "cursor s \<le> length l" by (simp add: inv_def)
    ultimately have "idx < length l" by simp
    with i have "light s ! idx =
           (if idx < cursor s \<and> (\<forall>i<length (workers s). workers s ! i \<noteq> Waiting idx)
            then answered resp l idx else l ! idx)"
      unfolding inv_def by blast
    with w ww show ?thesis by auto
  qed
  have sent: "base_experience (l ! j) = - 1 \<and> height (l ! j) = - 1 \<and> weight (l ! j) = - 1"
    using sentinel j by simp
  have c: "light s' ! j = light s ! j
          \<or> (base_experience (light s ! j) = - 1 \<and> height (light s ! j) = - 1
               \<and> weight (light s ! j) = - 1
               \<and> (\<exists>d. resp j = Inr d
                     \<and> base_experience (light s' ! j) = d_base_experience d
                     \<and> height (light s' ! j) = d_height d
                     \<and> weight (light s' ! j) = d_weight d))"
  proof (cases "j = idx")
    case False
    then have "light s' ! j = light s ! j"
      by (simp add: L on_response_def split: sum.splits)
    then show ?thesis by simp
  next
    case True
    show ?thesis
    proof (cases "resp idx")
      case (Inl e)
      then have "light s' ! j = light s ! j" by (simp add: L on_response_def)
      then show ?thesis by simp
    next
      case (Inr d)
      then have "light s' ! j = enrich_item (l ! j) d"
        using True j len untouched by (simp add: L on_response_def)
      then have "base_experience (light s' ! j) = d_base_experience d
                     \<and> height (light s' ! j) = d_height d
                     \<and> weight (light s' ! j) = d_weight d"
        by (simp add: enrich_item_def)
      with Inr True untouched sent show ?thesis by simp
    qed
  qed
  have d: "sentinel_step (base_experience (light s ! j)) (base_experience (light s' ! j))
            \<and> sentinel_step (height (light s ! j)) (height (light s' ! j))
            \<and> sentinel_step (weight (light s ! j)) (weight (light s' ! j))"
    if "\<forall>i d. resp i = Inr d \<longrightarrow>
               0 \<le> d_base_experience d \<and> 0 \<le> d_height d \<and> 0 \<le> d_weight d"
  proof -
    from c show ?thesis
    proof
      assume "light s' ! j = light s ! j"
      then show ?thesis by (simp add: sentinel_step_def)
    next
      assume "base_experience (light s ! j) = - 1 \<and> height (light s ! j) = - 1
               \<and> weight (light s ! j) = - 1
               \<and> (\<exists>d. resp j = Inr d
                     \<and> base_experience (light s' ! j) = d_base_experience d
                     \<and> height (light s' ! j) = d_height d
                     \<and> weight (light s' ! j) = d_weight d)"
      then obtain d where old: "base_experience (light s ! j) = - 1" "height (light s ! j) = - 1"
          "weight (light s ! j) = - 1" and r: "resp j = Inr d"
        and new: "base_experience (light s' ! j) = d_base_experience d"
          "height (light s' ! j) = d_height d" "weight (light s' ! j) = d_weight d"
        by blast
      from that r have "0 \<le> d_base_experience d \<and> 0 \<le> d_height d \<and> 0 \<le> d_weight d"
        by blast
      with old new show ?thesis by (simp add: sentinel_step_def)
    qed
  qed
  from a b c d show ?thesis by blast
qed

theorem enrichment_transitions_witness:
  "run sample_resp (init_state sample_light) [] = Some (init_state sample_light)
   \<and> deliver sample_resp (init_state sample_light) 0 = Some sample_step
   \<and> (0::nat) < length sample_light
   \<and> base_experience (light (init_state sample_light) ! 0) = - 1
   \<and> base_experience (light sample_step ! 0) = 64
   \<and> sentinel_step (base_experience (light (init_state sample_light) ! 0))
        (base_experience (light sample_step ! 0))
   \<and> id' (light sample_step ! 0) = id' (sample_light ! 0)
   \<and> name (light sample_step ! 0) = name (sample_light ! 0)"
proof -
  have h1: "\<forall>p\<in>set sample_light. base_experience p = - 1 \<and> height p = - 1 \<and> weight p = - 1"
    by code_simp
  have h2: "run sample_resp (init_state sample_light) [] = Some (init_state sample_light)"
    by simp
  have h3: "deliver sample_resp (init_state sample_light) 0 = Some sample_step"
    by code_simp
  have h4: "(0::nat) < length sample_light"
    by code_simp
  have h5: "\<forall>i d. sample_resp i = Inr d \<longrightarrow>
         0 \<le> d_base_experience d \<and> 0 \<le> d_height d \<and> 0 \<le> d_weight d"
    by (auto simp: sample_resp_def sample_detail_def split: if_splits)
  have v: "base_experience (light (init_state sample_light) ! 0) = - 1"
    "base_experience (light sample_step ! 0) = 64"
    by code_simp+
  from enrichment_transitions [OF h1 h2 h3 h4] h5
  have "sentinel_step (base_experience (light (init_state sample_light) ! 0))
        (base_experience (light sample_step ! 0))
   \<and> id' (light sample_step ! 0) = id' (sample_light ! 0)
   \<and> name (light sample_step ! 0) = name (sample_light ! 0)"
    by blast
  with h2 h3 h4 v show ?thesis by blast
qed

text \<open>
  Claim C2 as stated fails when a detail response carries a negative number: the value is
  copied as it is, so the field goes from \<open>-1\<close> to \<open>-5\<close>, which is not a non-negative
  value.
\<close>

theorem enrichment_negative_counterexample:
  "build_light Number_example String_example [sample_page ! 1] = [sample_light ! 0]
   \<and> base_experience (sample_light ! 0) = - 1
   \<and> getPokemonPage Number_example String_example (Inr [sample_page ! 1])
        (\<lambda>i. Inr (sample_detail\<lparr>d_base_experience := - 5\<rparr>)) [0]
       = Returns [enrich_item (sample_light ! 0) (sample_detail\<lparr>d_base_experience := - 5\<rparr>)]
   \<and> base_experience (enrich_item (sample_light ! 0) (sample_detail\<lparr>d_base_experience := - 5\<rparr>))
       = - 5
   \<and> \<not> sentinel_step (- 1) (- 5)"
  by code_simp

text \<open>
  The whole call on a page that was fetched: whenever it returns, it returns the light list
  with every entry's own response applied, whatever the order of arrival; and there is an
  order of arrival on which it returns.
\<close>

lemma getPokemonPage_returns_enriched:
  "(getPokemonPage num str (Inr list) resp ws = Returns out \<longrightarrow>
      out = enriched resp (build_light num str list))
   \<and> (\<exists>ws'. getPokemonPage num str (Inr list) resp ws'
                = Returns (enriched resp (build_light num str list)))"
proof -
  let ?l = "build_light num str list"
  have a: "out = enriched resp ?l" if r: "getPokemonPage num str (Inr list) resp ws = Returns out"
  proof -
    from r obtain s where s: "run resp (init_state ?l) ws = Some s"
      and f: "finished s" and o: "out = light s"
      by (auto simp: getPokemonPage_def split: option.splits if_splits)
    from s have "inv resp ?l s" by (rule run_from_init)
    then have "light s = enriched resp ?l" using f by (rule finished_light)
    with o show ?thesis by simp
  qed
  have "inv resp ?l (init_state ?l)" by (rule inv_init)
  then obtain ws' s' where s: "run resp (init_state ?l) ws' = Some s'" and f: "finished s'"
    using completion by blast
  from s have "inv resp ?l s'" by (rule run_from_init)
  then have "light s' = enriched resp ?l" using f by (rule finished_light)
  with s f have "getPokemonPage num str (Inr list) resp ws' = Returns (enriched resp ?l)"
    by (simp add: getPokemonPage_def)
  with a show ?thesis by blast
qed

end
